theory Spec2Isabelle
  imports Complex_Main
begin

section \<open>The lower-third overlay of CasparGFX/now_playing.html\<close>

text \<open>
  The script of the page has three entry points (\<open>play\<close>, \<open>update\<close>, \<open>stop\<close>), one
  helper (\<open>createTypewriter\<close>) and two global timer handles. Everything it does is a
  mutation of the page or a call of \<open>setTimeout\<close>/\<open>clearTimeout\<close>. The embedding makes
  the page, the timer queue of the event loop and the two globals one record, turns
  every closure handed to \<open>setTimeout\<close> into a constructor of the datatype \<open>action\<close>,
  and runs the queue with the function \<open>advance\<close>.
\<close>

subsection \<open>JavaScript values of the request fields\<close>

datatype jsval =
    JUndefined
  | JNull
  | JBool bool
  | JNum rat
  | JNaN
  | JStr string
  | JObject

text \<open>Truthiness as the operator \<open>||\<close> tests it.\<close>

fun truthy :: "jsval \<Rightarrow> bool" where
  "truthy JUndefined = False"
| "truthy JNull = False"
| "truthy (JBool b) = b"
| "truthy (JNum n) = (n \<noteq> 0)"
| "truthy JNaN = False"
| "truthy (JStr s) = (s \<noteq> [])"
| "truthy JObject = True"

text \<open>\<open>a || b\<close>\<close>

definition js_or :: "jsval \<Rightarrow> jsval \<Rightarrow> jsval" where
  "js_or a b = (if truthy a then a else b)"

text \<open>The object handed to \<open>play\<close>; a property that is absent reads as \<open>undefined\<close>.\<close>

record request =
  artist :: jsval
  song :: jsval

text \<open>The default parameter \<open>data = {}\<close>.\<close>

definition empty_request :: request where
  "empty_request = \<lparr>artist = JUndefined, song = JUndefined\<rparr>"

subsection \<open>The page\<close>

text \<open>The three text elements, by id: now-playing-text, artist-text, song-text.\<close>

datatype elem = NowPlayingText | ArtistText | SongText

text \<open>
  A \<open>span.char\<close> created by \<open>createTypewriter\<close>: its \<open>innerHTML\<close> and its opacity (0 from
  the style sheet until the reveal timer writes 1).
\<close>

record span =
  html :: string
  opacity :: int

text \<open>
  \<open>lowerThird.style.width\<close>. The script writes \<open>'0'\<close>, \<open>'1000px'\<close> and
  \<open>newWidth + 'px'\<close> and reads it back through \<open>parseInt\<close>; before the first write the
  inline style is the empty string.
\<close>

datatype css_width = NoWidth | Px int

text \<open>\<open>parseInt\<close> of the inline width; \<open>None\<close> is NaN (the empty string).\<close>

fun parseInt :: "css_width \<Rightarrow> int option" where
  "parseInt NoWidth = None"
| "parseInt (Px n) = Some n"

datatype error = TypeError

text \<open>
  The closures the script passes to \<open>setTimeout\<close>, named by what they do; the source line
  of each is given at its equation of \<open>exec\<close> below. A closure that captures \<open>data\<close> or a
  \<open>span\<close> carries it as an argument; a span is carried as its address in the span store.
\<close>

datatype action =
    DelayedStart request
  | Expand
  | StartReveal request
  | ShimmerOff
  | AutoHide
  | RevealChar nat
  | TypedLabel request
  | TypedArtist request
  | TypedSong
  | Collapse
  | LogoRise
  | BoxDown
  | LogoDrop

record timer =
  tid :: nat
  due :: rat
  act :: action

text \<open>
  The page and the script's state. Style fields hold the value in effect (the inline
  value once the script has written one, the style sheet's before); \<open>lt_width\<close> keeps the
  inline value itself, because the script reads it. \<open>spans\<close> is the store of every span
  element ever created, addressed by position: clearing an element's \<open>innerHTML\<close> detaches
  its spans but a pending reveal timer still holds and mutates them.
\<close>

record state =
  lt_width :: css_width
  lt_bottom :: string
  logo_opacity :: int
  logo_transform :: string
  logo_bottom :: string
  logo_shimmer :: bool
  tc_opacity :: int
  now_playing_text :: "nat list"
  artist_text :: "nat list"
  song_text :: "nat list"
  spans :: "span list"
  timers :: "timer list"
  now :: rat
  next_id :: nat
  autoHideTimeout :: "nat option"
  delayedStartTimeout :: "nat option"
  uncaught :: "error list"

text \<open>The page as loaded: style sheet values, empty text elements, no timer.\<close>

definition initial_page :: state where
  "initial_page = \<lparr>
     lt_width = NoWidth, lt_bottom = ''-200px'',
     logo_opacity = 1, logo_transform = ''scale(1) rotate(0deg)'', logo_bottom = ''-200px'',
     logo_shimmer = False, tc_opacity = 0,
     now_playing_text = [], artist_text = [], song_text = [],
     spans = [], timers = [], now = 0, next_id = 1,
     autoHideTimeout = None, delayedStartTimeout = None, uncaught = []\<rparr>"

fun children :: "elem \<Rightarrow> state \<Rightarrow> nat list" where
  "children NowPlayingText s = now_playing_text s"
| "children ArtistText s = artist_text s"
| "children SongText s = song_text s"

fun set_children :: "elem \<Rightarrow> nat list \<Rightarrow> state \<Rightarrow> state" where
  "set_children NowPlayingText cs s = s\<lparr>now_playing_text := cs\<rparr>"
| "set_children ArtistText cs s = s\<lparr>artist_text := cs\<rparr>"
| "set_children SongText cs s = s\<lparr>song_text := cs\<rparr>"

subsection \<open>Timers\<close>

text \<open>
  The queue is kept in firing order: by due time, and among equal due times in the order
  of the \<open>setTimeout\<close> calls.
\<close>

fun insert_timer :: "timer \<Rightarrow> timer list \<Rightarrow> timer list" where
  "insert_timer t [] = [t]"
| "insert_timer t (u # us) = (if due t < due u then t # u # us else u # insert_timer t us)"

text \<open>\<open>setTimeout(f, delay)\<close>: returns the handle.\<close>

definition setTimeout :: "action \<Rightarrow> rat \<Rightarrow> state \<Rightarrow> nat \<times> state" where
  "setTimeout f delay s =
     (next_id s,
      s\<lparr>timers := insert_timer \<lparr>tid = next_id s, due = now s + delay, act = f\<rparr> (timers s),
        next_id := Suc (next_id s)\<rparr>)"

text \<open>\<open>clearTimeout(h)\<close>: nothing happens for \<open>undefined\<close> or for a handle that has fired.\<close>

definition clearTimeout :: "nat option \<Rightarrow> state \<Rightarrow> state" where
  "clearTimeout h s =
     (case h of None \<Rightarrow> s
      | Some i \<Rightarrow> s\<lparr>timers := filter (\<lambda>t. tid t \<noteq> i) (timers s)\<rparr>)"

subsection \<open>createTypewriter\<close>

text \<open>Lines 158 to 161: the width the container should have for a measured text width.\<close>

definition newWidth :: "int \<Rightarrow> int" where
  "newWidth textWidth =
     (let baseWidth = 1000;
          paddingExtra = 400;
          w = textWidth + paddingExtra;
          w = (if w < baseWidth then baseWidth else w);
          w = (if w > 1600 then 1600 else w)
      in w)"

text \<open>Lines 136 to 139.\<close>

definition speed_of :: "rat \<Rightarrow> nat \<Rightarrow> rat" where
  "speed_of baseSpeed n = (if n > 100 then baseSpeed / 2 else baseSpeed)"

text \<open>Line 144.\<close>

definition span_html :: "char \<Rightarrow> string" where
  "span_html c = (if c = CHR '' '' then ''&nbsp;'' else [c])"

text \<open>Lines 141 to 146: one new span per character, appended to the element.\<close>

fun append_spans :: "elem \<Rightarrow> string \<Rightarrow> state \<Rightarrow> state" where
  "append_spans el [] s = s"
| "append_spans el (c # cs) s =
     append_spans el cs
       (set_children el (children el s @ [length (spans s)])
          (s\<lparr>spans := spans s @ [\<lparr>html = span_html c, opacity = 0\<rparr>]\<rparr>))"

text \<open>
  Lines 150 to 168: the loop over the spans, \<open>i\<close> being the index of the first span of the
  list.
\<close>

fun schedule_reveals :: "nat list \<Rightarrow> nat \<Rightarrow> rat \<Rightarrow> state \<Rightarrow> state" where
  "schedule_reveals [] i speed s = s"
| "schedule_reveals (a # as) i speed s =
     schedule_reveals as (Suc i) speed (snd (setTimeout (RevealChar a) (of_nat i * speed) s))"

text \<open>
  \<open>createTypewriter(element, text, baseSpeed, callback)\<close>. \<open>text.split\<close> exists for a
  string only: any other value throws after the element has been cleared. \<open>Inl\<close> carries
  the error and the state at the throw.
\<close>

definition createTypewriter ::
  "elem \<Rightarrow> jsval \<Rightarrow> rat \<Rightarrow> action option \<Rightarrow> state \<Rightarrow> (error \<times> state) + state" where
  "createTypewriter element text baseSpeed callback s =
     (let s = set_children element [] s in
      case text of
        JStr chars \<Rightarrow>
          (let speed = speed_of baseSpeed (length chars);
               s = append_spans element chars s;
               s = schedule_reveals (children element s) 0 speed s
           in case callback of
                None \<Rightarrow> Inr s
              | Some cb \<Rightarrow> Inr (snd (setTimeout cb (of_nat (length chars) * speed + 500) s)))
      | _ \<Rightarrow> Inl (TypeError, s))"

text \<open>
  Lines 152 to 165, the body of a reveal timer. \<open>scrollWidth\<close> stands for
  \<open>textContainer.scrollWidth\<close>, which the browser's layout computes: it is a parameter.
\<close>

definition reveal :: "(state \<Rightarrow> int) \<Rightarrow> nat \<Rightarrow> state \<Rightarrow> state" where
  "reveal scrollWidth a s =
     (let s = s\<lparr>spans := (spans s)[a := (spans s ! a)\<lparr>opacity := 1\<rparr>]\<rparr>;
          textWidth = scrollWidth s;
          w = newWidth textWidth
      in case parseInt (lt_width s) of
           None \<Rightarrow> s
         | Some cur \<Rightarrow> if w > cur then s\<lparr>lt_width := Px w\<rparr> else s)"

subsection \<open>stop, play, update\<close>

text \<open>Lines 230 to 257.\<close>

definition stop :: "state \<Rightarrow> state" where
  "stop s =
     (let s = clearTimeout (autoHideTimeout s) s;
          s = clearTimeout (delayedStartTimeout s) s;
          s = s\<lparr>tc_opacity := 0\<rparr>;
          s = snd (setTimeout Collapse 500 s);
          s = snd (setTimeout LogoRise 1200 s);
          s = snd (setTimeout BoxDown 3500 s);
          s = snd (setTimeout LogoDrop 1800 s)
      in s)"

text \<open>Lines 175 to 228; \<open>None\<close> is a call without argument.\<close>

definition play :: "request option \<Rightarrow> state \<Rightarrow> state" where
  "play arg s =
     (let data = (case arg of None \<Rightarrow> empty_request | Some d \<Rightarrow> d);
          s = clearTimeout (autoHideTimeout s) s;
          s = clearTimeout (delayedStartTimeout s) s;
          s = s\<lparr>now_playing_text := []\<rparr>;
          s = s\<lparr>artist_text := []\<rparr>;
          s = s\<lparr>song_text := []\<rparr>;
          s = s\<lparr>tc_opacity := 0\<rparr>;
          s = s\<lparr>logo_opacity := 1\<rparr>;
          s = s\<lparr>logo_transform := ''scale(1)''\<rparr>;
          s = s\<lparr>lt_width := Px 0\<rparr>;
          s = s\<lparr>lt_bottom := ''-200px''\<rparr>;
          s = s\<lparr>logo_bottom := ''-100px''\<rparr>;
          (h, s) = setTimeout (DelayedStart data) 1000 s
      in s\<lparr>delayedStartTimeout := Some h\<rparr>)"

text \<open>Lines 259 to 261.\<close>

definition update :: "request option \<Rightarrow> state \<Rightarrow> state" where
  "update arg s =
     (let data = (case arg of None \<Rightarrow> empty_request | Some d \<Rightarrow> d)
      in play (Some data) s)"

subsection \<open>The timer bodies and the event loop\<close>

text \<open>What each closure does when its timer fires.\<close>

fun exec :: "(state \<Rightarrow> int) \<Rightarrow> action \<Rightarrow> state \<Rightarrow> (error \<times> state) + state" where
  "exec sw (DelayedStart data) s =
     \<comment> \<open>lines 193 to 227\<close>
     (let s = s\<lparr>lt_bottom := ''40px''\<rparr>;
          s = s\<lparr>logo_bottom := ''-80px''\<rparr>;
          s = s\<lparr>logo_transform := ''scale(1)''\<rparr>;
          s = snd (setTimeout Expand 500 s);
          s = snd (setTimeout (StartReveal data) 2000 s);
          (h, s) = setTimeout AutoHide 12000 s
      in Inr (s\<lparr>autoHideTimeout := Some h\<rparr>))"
| "exec sw Expand s =
     \<comment> \<open>lines 199 to 202\<close>
     Inr (s\<lparr>lt_width := Px 1000, logo_transform := ''scale(1.05) rotate(-360deg)''\<rparr>)"
| "exec sw (StartReveal data) s =
     \<comment> \<open>lines 204 to 221\<close>
     (case createTypewriter NowPlayingText (JStr ''Now Playing:'') 50 (Some (TypedLabel data))
             (s\<lparr>tc_opacity := 1\<rparr>) of
        Inl e \<Rightarrow> Inl e
      | Inr s \<Rightarrow> Inr (snd (setTimeout ShimmerOff 1300 (s\<lparr>logo_shimmer := True\<rparr>))))"
| "exec sw ShimmerOff s =
     \<comment> \<open>lines 217 to 219\<close>
     Inr (s\<lparr>logo_shimmer := False\<rparr>)"
| "exec sw AutoHide s =
     \<comment> \<open>lines 223 to 225\<close>
     Inr (stop s)"
| "exec sw (RevealChar a) s =
     \<comment> \<open>lines 151 to 167\<close>
     Inr (reveal sw a s)"
| "exec sw (TypedLabel data) s =
     \<comment> \<open>line 207, the callback\<close>
     createTypewriter ArtistText (js_or (artist data) (JStr ''Artist Name'')) 50
       (Some (TypedArtist data)) s"
| "exec sw (TypedArtist data) s =
     \<comment> \<open>line 208, the callback\<close>
     createTypewriter SongText (js_or (song data) (JStr ''Song Title'')) 50 (Some TypedSong) s"
| "exec sw TypedSong s =
     \<comment> \<open>line 209, the callback\<close>
     Inr s"
| "exec sw Collapse s =
     \<comment> \<open>lines 241 to 244\<close>
     Inr (s\<lparr>lt_width := Px 0, logo_transform := ''scale(1) rotate(0deg)''\<rparr>)"
| "exec sw LogoRise s =
     \<comment> \<open>lines 246 to 248\<close>
     Inr (s\<lparr>logo_bottom := ''-80px''\<rparr>)"
| "exec sw BoxDown s =
     \<comment> \<open>lines 250 to 252\<close>
     Inr (s\<lparr>lt_bottom := ''-200px''\<rparr>)"
| "exec sw LogoDrop s =
     \<comment> \<open>lines 254 to 256\<close>
     Inr (s\<lparr>logo_bottom := ''-350px''\<rparr>)"

text \<open>
  One turn of the event loop for a timer taken off the queue: the clock is at the timer's
  due time, the closure runs, and an exception it throws is reported and otherwise lost.
\<close>

definition fire :: "(state \<Rightarrow> int) \<Rightarrow> timer \<Rightarrow> state \<Rightarrow> state" where
  "fire sw t s =
     (case exec sw (act t) (s\<lparr>now := due t\<rparr>) of
        Inr s' \<Rightarrow> s'
      | Inl (e, s') \<Rightarrow> s'\<lparr>uncaught := uncaught s' @ [e]\<rparr>)"

subsection \<open>Observations\<close>

text \<open>
  What an element holds (the \<open>innerHTML\<close> of its spans, in order), which of them have been
  revealed, and what of it can be seen: nothing while the text container has opacity 0.
  Every address in an element was allocated by \<open>append_spans\<close>, so the reads are in range.
\<close>

definition text_of :: "elem \<Rightarrow> state \<Rightarrow> string list" where
  "text_of el s = map (\<lambda>a. html (spans s ! a)) (children el s)"

definition revealed_of :: "elem \<Rightarrow> state \<Rightarrow> string list" where
  "revealed_of el s =
     map html (filter (\<lambda>sp. opacity sp = 1) (map (\<lambda>a. spans s ! a) (children el s)))"

definition on_air_text :: "elem \<Rightarrow> state \<Rightarrow> string list" where
  "on_air_text el s = (if tc_opacity s = 0 then [] else revealed_of el s)"

text \<open>The width in effect: the style sheet's \<open>width: 0\<close> until the script writes one.\<close>

fun width_px :: "css_width \<Rightarrow> int" where
  "width_px NoWidth = 0"
| "width_px (Px n) = n"

text \<open>
  The resting state of the overlay: nothing pending, the box at width 0 and at its
  off-stage position, the text container hidden. These are the values of the style sheet,
  which are also the values \<open>play\<close> resets to and the exit sequence ends on.
\<close>

definition idle :: "state \<Rightarrow> bool" where
  "idle s \<longleftrightarrow>
     timers s = [] \<and> width_px (lt_width s) = 0 \<and> lt_bottom s = ''-200px'' \<and> tc_opacity s = 0"

text \<open>
  A measurement to run examples with: 30 pixels for each character of the longest of the
  three lines (a span takes its place in the layout from the moment it is appended).
\<close>

definition monospace :: "state \<Rightarrow> int" where
  "monospace s =
     30 * int (max (length (now_playing_text s))
                (max (length (artist_text s)) (length (song_text s))))"

text \<open>The spec's Size Calculator, in its words: \<open>clamp(x, minWidth, maxWidth)\<close>.\<close>

definition clamp :: "int \<Rightarrow> int \<Rightarrow> int \<Rightarrow> int" where
  "clamp x lo hi = max lo (min hi x)"

subsection \<open>Notions used to state what the loop does\<close>

text \<open>A span as lines 142 to 145 create it.\<close>

definition new_span :: "char \<Rightarrow> span" where
  "new_span c = \<lparr>html = span_html c, opacity = 0\<rparr>"

text \<open>
  The reveal timers one call of \<open>createTypewriter\<close> sets for the spans \<open>as\<close>: the span of
  index \<open>i\<close> is due \<open>i * speed\<close> after \<open>base\<close>, the time of the call; handles count up from
  \<open>h\<close>.
\<close>

fun reveal_timers :: "nat list \<Rightarrow> nat \<Rightarrow> nat \<Rightarrow> rat \<Rightarrow> rat \<Rightarrow> timer list" where
  "reveal_timers [] i h base speed = []"
| "reveal_timers (a # as) i h base speed =
     \<lparr>tid = h, due = base + of_nat i * speed, act = RevealChar a\<rparr>
       # reveal_timers as (Suc i) (Suc h) base speed"

text \<open>Several \<open>setTimeout\<close> calls in a row, as the queue sees them.\<close>

definition insert_all :: "timer list \<Rightarrow> timer list \<Rightarrow> timer list" where
  "insert_all ts q = foldl (\<lambda>q t. insert_timer t q) q ts"

text \<open>The timers the loop fires when it runs up to time \<open>T\<close>, if firing them sets no timer.\<close>

abbreviation due_by :: "rat \<Rightarrow> timer list \<Rightarrow> timer list" where
  "due_by T q \<equiv> takeWhile (\<lambda>u. due u \<le> T) q"

text \<open>The spans among \<open>as\<close> whose reveal timer is due by \<open>T\<close>.\<close>

fun due_addrs :: "nat list \<Rightarrow> nat \<Rightarrow> rat \<Rightarrow> rat \<Rightarrow> rat \<Rightarrow> nat list" where
  "due_addrs [] i base speed T = []"
| "due_addrs (a # as) i base speed T =
     (if base + of_nat i * speed \<le> T then a # due_addrs as (Suc i) base speed T
      else due_addrs as (Suc i) base speed T)"

text \<open>The span store after the reveal timers of the addresses \<open>as\<close> have fired.\<close>

definition show_spans :: "nat list \<Rightarrow> span list \<Rightarrow> span list" where
  "show_spans as sp = foldl (\<lambda>sp a. sp[a := (sp ! a)\<lparr>opacity := 1\<rparr>]) sp as"

text \<open>The four closures of the exit sequence, lines 241 to 256.\<close>

fun exit_action :: "action \<Rightarrow> bool" where
  "exit_action Collapse = True"
| "exit_action LogoRise = True"
| "exit_action BoxDown = True"
| "exit_action LogoDrop = True"
| "exit_action _ = False"

text \<open>The state with the inline width forgotten: what remains does not depend on the layout.\<close>

definition no_width :: "state \<Rightarrow> state" where
  "no_width s = s\<lparr>lt_width := NoWidth\<rparr>"

text \<open>Everything of a state that can be seen.\<close>

definition visual ::
  "state \<Rightarrow> int \<times> string \<times> int \<times> string \<times> string \<times> bool \<times> int
     \<times> nat list \<times> nat list \<times> nat list \<times> span list" where
  "visual s =
     (width_px (lt_width s), lt_bottom s, logo_opacity s, logo_transform s, logo_bottom s,
      logo_shimmer s, tc_opacity s, now_playing_text s, artist_text s, song_text s, spans s)"

subsection \<open>The event loop terminates\<close>

text \<open>
  A timer body schedules finitely many further timers, and the chain of closures is
  finite: the weight of an action bounds the number of timer firings it can cause.
\<close>

fun text_length :: "jsval \<Rightarrow> nat" where
  "text_length (JStr cs) = length cs"
| "text_length _ = 0"

fun weight :: "action \<Rightarrow> nat" where
  "weight (TypedArtist d) = 2 + text_length (js_or (song d) (JStr ''Song Title''))"
| "weight (TypedLabel d) =
     3 + text_length (js_or (artist d) (JStr ''Artist Name''))
       + text_length (js_or (song d) (JStr ''Song Title''))"
| "weight (StartReveal d) =
     17 + text_length (js_or (artist d) (JStr ''Artist Name''))
        + text_length (js_or (song d) (JStr ''Song Title''))"
| "weight (DelayedStart d) =
     24 + text_length (js_or (artist d) (JStr ''Artist Name''))
        + text_length (js_or (song d) (JStr ''Song Title''))"
| "weight AutoHide = 5"
| "weight _ = 1"

definition load :: "timer list \<Rightarrow> nat" where
  "load q = sum_list (map (\<lambda>t. weight (act t)) q)"

lemma load_insert_timer: "load (insert_timer t q) = weight (act t) + load q"
  by (induction q) (auto simp: load_def)

lemma load_filter: "load (filter P q) \<le> load q"
  by (induction q) (auto simp: load_def)

lemma load_setTimeout: "load (timers (snd (setTimeout f d s))) = weight f + load (timers s)"
  by (simp add: setTimeout_def load_insert_timer)

lemma load_clearTimeout: "load (timers (clearTimeout h s)) \<le> load (timers s)"
  by (cases h) (simp_all add: clearTimeout_def load_filter)

lemma timers_set_children [simp]: "timers (set_children el cs s) = timers s"
  by (cases el) simp_all

lemma children_set_children [simp]: "children el (set_children el cs s) = cs"
  by (cases el) simp_all

lemma spans_set_children [simp]: "spans (set_children el cs s) = spans s"
  by (cases el) simp_all

lemma timers_append_spans [simp]: "timers (append_spans el cs s) = timers s"
  by (induction cs arbitrary: s) simp_all

lemma length_children_append_spans:
  "length (children el (append_spans el cs s)) = length (children el s) + length cs"
  by (induction cs arbitrary: s) simp_all

lemma load_schedule_reveals:
  "load (timers (schedule_reveals as i sp s)) = length as + load (timers s)"
  by (induction as arbitrary: i s) (simp_all add: load_setTimeout)

lemma load_createTypewriter:
  "createTypewriter el txt b cb s = Inr s' \<Longrightarrow>
     load (timers s') =
       text_length txt + (case cb of None \<Rightarrow> 0 | Some c \<Rightarrow> weight c) + load (timers s)"
  "createTypewriter el txt b cb s = Inl (e, s') \<Longrightarrow> load (timers s') = load (timers s)"
  by (auto simp: createTypewriter_def Let_def load_schedule_reveals load_setTimeout
        length_children_append_spans split: jsval.splits option.splits)

lemma load_stop: "load (timers (stop s)) \<le> 4 + load (timers s)"
proof -
  have "load (timers (clearTimeout (delayedStartTimeout (clearTimeout (autoHideTimeout s) s))
          (clearTimeout (autoHideTimeout s) s))) \<le> load (timers s)"
    using load_clearTimeout le_trans by blast
  then show ?thesis
    by (simp add: stop_def Let_def load_setTimeout)
qed

lemma timers_reveal [simp]: "timers (reveal sw a s) = timers s"
  by (simp add: reveal_def Let_def split: option.splits)

lemma load_exec:
  "exec sw a s = Inr s' \<Longrightarrow> load (timers s') < weight a + load (timers s)"
  "exec sw a s = Inl (e, s') \<Longrightarrow> load (timers s') < weight a + load (timers s)"
proof (induction sw a s rule: exec.induct)
  case (3 sw data s)
  { case 1 then show ?case
      by (auto simp: load_setTimeout split: sum.splits dest!: load_createTypewriter(1))
  next
    case 2 then show ?case
      by (auto split: sum.splits dest!: load_createTypewriter(2)) }
next
  case (5 sw s)
  { case 1 then show ?case using load_stop [of s] by auto
  next case 2 then show ?case by simp }
qed (auto simp: Let_def load_setTimeout split_beta dest!: load_createTypewriter)

lemma load_fire: "load (timers (fire sw t s)) < weight (act t) + load (timers s)"
  using load_exec [of sw "act t" "s\<lparr>now := due t\<rparr>"]
  by (auto simp: fire_def split: sum.splits)

text \<open>
  The event loop up to time \<open>t\<close>: as long as the first timer of the queue is due, it is
  taken off the queue and fired; then the clock stands at \<open>t\<close>.
\<close>

function advance :: "(state \<Rightarrow> int) \<Rightarrow> rat \<Rightarrow> state \<Rightarrow> state" where
  "advance sw t s =
     (case timers s of
        [] \<Rightarrow> s\<lparr>now := max (now s) t\<rparr>
      | tm # rest \<Rightarrow>
          if due tm \<le> t then advance sw t (fire sw tm (s\<lparr>timers := rest\<rparr>))
          else s\<lparr>now := max (now s) t\<rparr>)"
  by pat_completeness auto
termination
proof (relation "measure (\<lambda>(sw, t, s). load (timers s))")
  show "wf (measure (\<lambda>(sw, t, s). load (timers s)))" by simp
next
  fix sw :: "state \<Rightarrow> int" and t and s :: state and tm rest
  assume "timers s = tm # rest"
  then show "((sw, t, fire sw tm (s\<lparr>timers := rest\<rparr>)), (sw, t, s))
               \<in> measure (\<lambda>(sw, t, s). load (timers s))"
    using load_fire [of sw tm "s\<lparr>timers := rest\<rparr>"] by (simp add: load_def)
qed

declare advance.simps [simp del]

text \<open>The definitions a concrete run unfolds.\<close>

lemmas run_defs = advance.simps play_def stop_def update_def setTimeout_def clearTimeout_def
  createTypewriter_def reveal_def newWidth_def speed_of_def span_html_def fire_def
  initial_page_def monospace_def empty_request_def js_or_def Let_def

section \<open>How the queue and the loop behave\<close>

lemma insert_all_simps [simp]:
  "insert_all [] q = q"
  "insert_all (t # ts) q = insert_all ts (insert_timer t q)"
  by (simp_all add: insert_all_def)

lemma set_children_twice [simp]:
  "set_children el cs (set_children el cs' s) = set_children el cs s"
  by (cases el) simp_all

lemma set_children_spans_update:
  "set_children el cs (s\<lparr>spans := x\<rparr>) = (set_children el cs s)\<lparr>spans := x\<rparr>"
  by (cases el) simp_all

lemma children_spans_update [simp]: "children el (s\<lparr>spans := x\<rparr>) = children el s"
  by (cases el) simp_all

lemma append_spans_closed:
  "append_spans el cs s =
     set_children el (children el s @ [length (spans s) ..< length (spans s) + length cs])
       (s\<lparr>spans := spans s @ map new_span cs\<rparr>)"
proof (induction cs arbitrary: s)
  case Nil
  show ?case by (cases el) simp_all
next
  case (Cons c cs)
  have "[length (spans s) ..< length (spans s) + length (c # cs)]
          = length (spans s) # [Suc (length (spans s)) ..< Suc (length (spans s)) + length cs]"
    by (simp add: upt_conv_Cons del: upt_Suc)
  then show ?case
    by (simp add: Cons.IH new_span_def set_children_spans_update del: upt_Suc)
qed

lemma schedule_reveals_closed:
  "schedule_reveals as i speed s =
     s\<lparr>timers := insert_all (reveal_timers as i (next_id s) (now s) speed) (timers s),
       next_id := next_id s + length as\<rparr>"
  by (induction as arbitrary: i s) (simp_all add: setTimeout_def)

lemma createTypewriter_string:
  "createTypewriter el (JStr cs) b (Some cb) s =
     Inr ((set_children el [length (spans s) ..< length (spans s) + length cs] s)
          \<lparr>spans := spans s @ map new_span cs,
            timers := insert_timer
               \<lparr>tid = next_id s + length cs,
                 due = now s + (of_nat (length cs) * speed_of b (length cs) + 500), act = cb\<rparr>
               (insert_all (reveal_timers [length (spans s) ..< length (spans s) + length cs] 0
                              (next_id s) (now s) (speed_of b (length cs))) (timers s)),
            next_id := Suc (next_id s + length cs)\<rparr>)"
  by (cases el) (simp_all add: createTypewriter_def Let_def append_spans_closed schedule_reveals_closed
        setTimeout_def)

lemma advance_advance:
  "T1 \<le> T2 \<Longrightarrow> advance sw T2 (advance sw T1 s) = advance sw T2 s"
proof (induction sw T1 s rule: advance.induct)
  case (1 sw t s)
  show ?case
  proof (cases "timers s")
    case Nil
    with 1(2) show ?thesis
      by (simp add: advance.simps [of sw t s] advance.simps [of sw T2 s]
            advance.simps [of sw T2 "s\<lparr>now := max (now s) t\<rparr>"] max.assoc max_absorb2)
  next
    case (Cons tm rest)
    show ?thesis
    proof (cases "due tm \<le> t")
      case True
      with Cons 1 show ?thesis
        by (simp add: advance.simps [of sw t s] advance.simps [of sw T2 s])
    next
      case False
      with Cons 1(2) show ?thesis
        by (simp add: advance.simps [of sw t s] advance.simps [of sw T2 s]
            advance.simps [of sw T2 "s\<lparr>now := max (now s) t\<rparr>"] max.assoc max_absorb2 fire_def)
    qed
  qed
qed

lemma due_by_insert_later: "T < due x \<Longrightarrow> due_by T (insert_timer x q) = due_by T q"
  by (induction q) auto

lemma due_by_insert_due:
  "due x \<le> T \<Longrightarrow> \<forall>u\<in>set (due_by T q). due u \<le> due x \<Longrightarrow>
     due_by T (insert_timer x q) = due_by T q @ [x]"
  by (induction q) auto

lemma due_by_insert_all_reveals:
  "0 \<le> speed \<Longrightarrow> \<forall>u\<in>set (due_by T q). due u \<le> base + of_nat i * speed \<Longrightarrow>
     due_by T (insert_all (reveal_timers as i h base speed) q)
       = due_by T q @ filter (\<lambda>u. due u \<le> T) (reveal_timers as i h base speed)"
proof (induction as arbitrary: i h q)
  case Nil
  show ?case by simp
next
  case (Cons a as)
  let ?x = "\<lparr>tid = h, due = base + of_nat i * speed, act = RevealChar a\<rparr>"
  have step: "base + of_nat i * speed \<le> base + of_nat (Suc i) * speed"
    using Cons.prems(1) by (simp add: algebra_simps)
  show ?case
  proof (cases "due ?x \<le> T")
    case True
    have ins: "due_by T (insert_timer ?x q) = due_by T q @ [?x]"
      using True Cons.prems(2) by (intro due_by_insert_due) simp_all
    have "\<forall>u\<in>set (due_by T (insert_timer ?x q)). due u \<le> base + of_nat (Suc i) * speed"
      unfolding ins using Cons.prems(2) step by fastforce
    from Cons.IH [OF Cons.prems(1) this] show ?thesis
      using True by (simp add: ins)
  next
    case False
    then have ins: "due_by T (insert_timer ?x q) = due_by T q"
      by (intro due_by_insert_later) simp
    have "\<forall>u\<in>set (due_by T (insert_timer ?x q)). due u \<le> base + of_nat (Suc i) * speed"
      unfolding ins using Cons.prems(2) step by fastforce
    from Cons.IH [OF Cons.prems(1) this] show ?thesis
      using False by (simp add: ins)
  qed
qed

lemma act_due_reveal_timers:
  "map act (filter (\<lambda>u. due u \<le> T) (reveal_timers as i h base speed))
     = map RevealChar (due_addrs as i base speed T)"
  by (induction as arbitrary: i h) simp_all

lemma set_due_addrs:
  "set (due_addrs as i base speed T)
     = {as ! j | j. j < length as \<and> base + of_nat (i + j) * speed \<le> T}"
proof (induction as arbitrary: i)
  case Nil
  show ?case by simp
next
  case (Cons a as)
  have split: "{(a # as) ! j | j. j < length (a # as) \<and> base + of_nat (i + j) * speed \<le> T}
      = (if base + of_nat i * speed \<le> T then {a} else {})
        \<union> {as ! j | j. j < length as \<and> base + of_nat (Suc i + j) * speed \<le> T}"
    (is "?L = ?R")
  proof (intro set_eqI iffI)
    fix x assume "x \<in> ?L"
    then obtain j where j: "x = (a # as) ! j" "j < length (a # as)"
      "base + of_nat (i + j) * speed \<le> T" by blast
    show "x \<in> ?R"
    proof (cases j)
      case 0 with j show ?thesis by simp
    next
      case (Suc k)
      with j have "x = as ! k \<and> k < length as \<and> base + of_nat (Suc i + k) * speed \<le> T"
        by simp
      then show ?thesis by blast
    qed
  next
    fix x assume "x \<in> ?R"
    then consider "base + of_nat i * speed \<le> T" "x = a"
      | k where "x = as ! k" "k < length as" "base + of_nat (Suc i + k) * speed \<le> T"
      by (auto split: if_splits)
    then show "x \<in> ?L"
    proof cases
      case 1
      then have "x = (a # as) ! 0 \<and> 0 < length (a # as) \<and> base + of_nat (i + 0) * speed \<le> T"
        by simp
      then show ?thesis by blast
    next
      case 2
      then have "x = (a # as) ! Suc k \<and> Suc k < length (a # as)
                 \<and> base + of_nat (i + Suc k) * speed \<le> T"
        by simp
      then show ?thesis by blast
    qed
  qed
  show ?case
    unfolding split by (auto simp: Cons.IH)
qed

lemma show_spans_simps [simp]:
  "show_spans [] sp = sp"
  "show_spans (a # as) sp = show_spans as (sp[a := (sp ! a)\<lparr>opacity := 1\<rparr>])"
  by (simp_all add: show_spans_def)

lemma length_show_spans [simp]: "length (show_spans as sp) = length sp"
  by (induction as arbitrary: sp) simp_all

lemma html_reveal_nth:
  "a < length sp \<Longrightarrow> html (sp[b := (sp ! b)\<lparr>opacity := 1\<rparr>] ! a) = html (sp ! a)"
  by (cases "b = a") simp_all

lemma html_show_spans [simp]: "a < length sp \<Longrightarrow> html (show_spans as sp ! a) = html (sp ! a)"
  by (induction as arbitrary: sp) (simp_all add: html_reveal_nth)

lemma opacity_show_spans:
  "a < length sp \<Longrightarrow>
     opacity (show_spans as sp ! a) = (if a \<in> set as then 1 else opacity (sp ! a))"
  by (induction as arbitrary: sp) (auto simp: nth_list_update)

lemma spans_reveal: "spans (reveal sw a s) = (spans s)[a := (spans s ! a)\<lparr>opacity := 1\<rparr>]"
  by (simp add: reveal_def Let_def split: option.splits)

lemma children_reveal [simp]: "children el (reveal sw a s) = children el s"
  by (cases el) (simp_all add: reveal_def Let_def split: option.splits)

lemma tc_opacity_reveal [simp]: "tc_opacity (reveal sw a s) = tc_opacity s"
  by (simp add: reveal_def Let_def split: option.splits)

lemma uncaught_reveal [simp]: "uncaught (reveal sw a s) = uncaught s"
  by (simp add: reveal_def Let_def split: option.splits)

lemma width_reveal: "width_px (lt_width s) \<le> width_px (lt_width (reveal sw a s))"
  by (cases "lt_width s") (simp_all add: reveal_def Let_def)

lemma children_timers_now_update [simp]:
  "children el (s\<lparr>timers := q\<rparr>) = children el s"
  "children el (s\<lparr>now := t\<rparr>) = children el s"
  by (cases el; simp)+

text \<open>Running the loop while only reveal timers are due.\<close>

lemma advance_reveal_step:
  "timers s = u # rest \<Longrightarrow> due u \<le> T \<Longrightarrow> act u = RevealChar a \<Longrightarrow>
     advance sw T s = advance sw T (reveal sw a (s\<lparr>timers := rest, now := due u\<rparr>))"
  by (simp add: advance.simps [of sw T s] fire_def)

lemma advance_nothing_due:
  "due_by T (timers s) = [] \<Longrightarrow> advance sw T s = s\<lparr>now := max (now s) T\<rparr>"
  by (cases "timers s") (auto simp: advance.simps [of sw T s] split: if_splits)

lemma advance_reveals:
  "map act (due_by T (timers s)) = map RevealChar as \<Longrightarrow>
     spans (advance sw T s) = show_spans as (spans s)
     \<and> children el (advance sw T s) = children el s
     \<and> timers (advance sw T s) = dropWhile (\<lambda>u. due u \<le> T) (timers s)
     \<and> tc_opacity (advance sw T s) = tc_opacity s
     \<and> uncaught (advance sw T s) = uncaught s
     \<and> width_px (lt_width s) \<le> width_px (lt_width (advance sw T s))"
proof (induction as arbitrary: s)
  case Nil
  then have "due_by T (timers s) = []" by simp
  then show ?case
    by (simp add: advance_nothing_due) (metis dropWhile_eq_self_iff hd_Cons_tl list.set_sel(1) takeWhile_eq_Nil_iff dropWhile.simps(1))
next
  case (Cons a as)
  then obtain u rest where q: "timers s = u # rest" "due u \<le> T" "act u = RevealChar a"
    "map act (due_by T rest) = map RevealChar as"
    by (cases "timers s") (auto split: if_splits)
  let ?s' = "reveal sw a (s\<lparr>timers := rest, now := due u\<rparr>)"
  have adv: "advance sw T s = advance sw T ?s'"
    using q(1-3) by (rule advance_reveal_step)
  have "map act (due_by T (timers ?s')) = map RevealChar as"
    using q by simp
  from Cons.IH [OF this] width_reveal [of "s\<lparr>timers := rest, now := due u\<rparr>" sw a]
  show ?case
    unfolding adv using q by (simp add: spans_reveal)
qed

lemma due_reveal_timers:
  "u \<in> set (reveal_timers as i h base speed) \<Longrightarrow>
     \<exists>j<length as. due u = base + of_nat (i + j) * speed"
proof (induction as arbitrary: i h)
  case Nil
  then show ?case by simp
next
  case (Cons a as)
  from Cons.prems consider "due u = base + of_nat i * speed"
    | "u \<in> set (reveal_timers as (Suc i) (Suc h) base speed)" by auto
  then show ?case
  proof cases
    case 1
    then have "0 < length (a # as) \<and> due u = base + of_nat (i + 0) * speed" by simp
    then show ?thesis by blast
  next
    case 2
    from Cons.IH [OF this] obtain j where "j < length as" "due u = base + of_nat (Suc i + j) * speed"
      by blast
    then have "Suc j < length (a # as) \<and> due u = base + of_nat (i + Suc j) * speed" by simp
    then show ?thesis by blast
  qed
qed

lemma rest_insert_later:
  "T < due x \<Longrightarrow>
     dropWhile (\<lambda>u. due u \<le> T) (insert_timer x q) = insert_timer x (dropWhile (\<lambda>u. due u \<le> T) q)"
  by (induction q) auto

lemma rest_insert_due:
  "due x \<le> T \<Longrightarrow> \<forall>u\<in>set (due_by T q). due u \<le> due x \<Longrightarrow>
     dropWhile (\<lambda>u. due u \<le> T) (insert_timer x q) = dropWhile (\<lambda>u. due u \<le> T) q"
  by (induction q) auto

lemma rest_insert_all_reveals:
  "0 \<le> speed \<Longrightarrow> \<forall>u\<in>set (due_by T q). due u \<le> base + of_nat i * speed \<Longrightarrow>
   \<forall>u\<in>set (reveal_timers as i h base speed). due u \<le> T \<Longrightarrow>
     dropWhile (\<lambda>u. due u \<le> T) (insert_all (reveal_timers as i h base speed) q)
       = dropWhile (\<lambda>u. due u \<le> T) q"
proof (induction as arbitrary: i h q)
  case Nil
  show ?case by simp
next
  case (Cons a as)
  let ?x = "\<lparr>tid = h, due = base + of_nat i * speed, act = RevealChar a\<rparr>"
  have step: "base + of_nat i * speed \<le> base + of_nat (Suc i) * speed"
    using Cons.prems(1) by (simp add: algebra_simps)
  have due: "due ?x \<le> T" using Cons.prems(3) by simp
  have ins: "due_by T (insert_timer ?x q) = due_by T q @ [?x]"
    using due Cons.prems(2) by (intro due_by_insert_due) simp_all
  have ins': "dropWhile (\<lambda>u. due u \<le> T) (insert_timer ?x q) = dropWhile (\<lambda>u. due u \<le> T) q"
    using due Cons.prems(2) by (intro rest_insert_due) simp_all
  have a: "\<forall>u\<in>set (due_by T (insert_timer ?x q)). due u \<le> base + of_nat (Suc i) * speed"
    unfolding ins using Cons.prems(2) step by fastforce
  have b: "\<forall>u\<in>set (reveal_timers as (Suc i) (Suc h) base speed). due u \<le> T"
    using Cons.prems(3) by simp
  from Cons.IH [OF Cons.prems(1) a b] show ?case
    by (simp add: ins')
qed

lemma nothing_due:
  "\<forall>u\<in>set q. T < due u \<Longrightarrow> due_by T q = [] \<and> dropWhile (\<lambda>u. due u \<le> T) q = q"
  by (cases q) auto

text \<open>What the queue looks like to the loop after createTypewriter, when nothing else is due.\<close>

lemma createTypewriter_timeline:
  fixes s :: state and chars :: string and baseSpeed :: rat and cb :: action
  defines "n \<equiv> length chars"
  defines "speed \<equiv> speed_of baseSpeed (length chars)"
  defines "n0 \<equiv> length (spans s)"
  defines "cbt \<equiv> \<lparr>tid = next_id s + n, due = now s + (of_nat n * speed + 500), act = cb\<rparr>"
  assumes b: "0 \<le> baseSpeed"
      and others: "\<forall>u\<in>set (timers s). now s + t < due u"
      and t: "t < of_nat n * speed + 500"
      and s': "createTypewriter el (JStr chars) baseSpeed (Some cb) s = Inr s'"
  shows "spans (advance sw (now s + t) s')
           = show_spans (due_addrs [n0 ..< n0 + n] 0 (now s) speed (now s + t))
               (spans s @ map new_span chars)"
    and "children el (advance sw (now s + t) s') = [n0 ..< n0 + n]"
    and "tc_opacity (advance sw (now s + t) s') = tc_opacity s"
    and "uncaught (advance sw (now s + t) s') = uncaught s"
    and "width_px (lt_width s) \<le> width_px (lt_width (advance sw (now s + t) s'))"
    and "of_nat n * speed \<le> t + speed \<Longrightarrow>
           timers (advance sw (now s + t) s') = insert_timer cbt (timers s)"
    and "map act (due_by (now s + t) (timers s'))
           = map RevealChar (due_addrs [n0 ..< n0 + n] 0 (now s) speed (now s + t))"
proof -
  let ?T = "now s + t"
  let ?rt = "reveal_timers [n0 ..< n0 + n] 0 (next_id s) (now s) speed"
  have sp: "0 \<le> speed"
    using b by (simp add: speed_def speed_of_def)
  have s'_eq: "s' = (set_children el [n0 ..< n0 + n] s)
          \<lparr>spans := spans s @ map new_span chars,
            timers := insert_timer cbt (insert_all ?rt (timers s)),
            next_id := Suc (next_id s + n)\<rparr>"
    using s' by (simp add: createTypewriter_string n_def speed_def n0_def cbt_def)
  have q: "timers s' = insert_timer cbt (insert_all ?rt (timers s))"
    by (cases el) (simp_all add: s'_eq)
  have nd: "due_by ?T (timers s) = []" "dropWhile (\<lambda>u. due u \<le> ?T) (timers s) = timers s"
    using nothing_due [OF others] by simp_all
  have cb_later: "?T < due cbt"
    using t by (simp add: cbt_def)
  have due: "due_by ?T (timers s') = filter (\<lambda>u. due u \<le> ?T) ?rt"
    unfolding q using due_by_insert_later [OF cb_later]
      due_by_insert_all_reveals [OF sp, of ?T "timers s" "now s" 0 "[n0 ..< n0 + n]" "next_id s"] nd
    by simp
  show acts: "map act (due_by ?T (timers s'))
           = map RevealChar (due_addrs [n0 ..< n0 + n] 0 (now s) speed ?T)"
    unfolding due by (rule act_due_reveal_timers)
  note run = advance_reveals [OF acts, of sw el]
  have proj: "spans s' = spans s @ map new_span chars" "children el s' = [n0 ..< n0 + n]"
    "tc_opacity s' = tc_opacity s" "uncaught s' = uncaught s" "lt_width s' = lt_width s"
    by (cases el; simp add: s'_eq)+
  show "spans (advance sw ?T s')
           = show_spans (due_addrs [n0 ..< n0 + n] 0 (now s) speed ?T)
               (spans s @ map new_span chars)"
    using run by (simp add: proj)
  show "children el (advance sw ?T s') = [n0 ..< n0 + n]"
    using run by (simp add: proj)
  show "tc_opacity (advance sw ?T s') = tc_opacity s"
    using run by (simp add: proj)
  show "uncaught (advance sw ?T s') = uncaught s"
    using run by (simp add: proj)
  show "width_px (lt_width s) \<le> width_px (lt_width (advance sw ?T s'))"
    using run by (simp add: proj)
  show "timers (advance sw ?T s') = insert_timer cbt (timers s)" if last: "of_nat n * speed \<le> t + speed"
  proof -
    have all_due: "\<forall>u\<in>set ?rt. due u \<le> ?T"
    proof
      fix u assume "u \<in> set ?rt"
      from due_reveal_timers [OF this] obtain j where j: "j < n" "due u = now s + of_nat j * speed"
        by auto
      then have "of_nat j * speed + speed \<le> of_nat n * speed"
      proof -
        from j(1) have "of_nat (Suc j) \<le> (of_nat n :: rat)" by (simp only: of_nat_le_iff Suc_le_eq)
        then have "of_nat (Suc j) * speed \<le> of_nat n * speed" using sp by (rule mult_right_mono)
        then show ?thesis by (simp add: algebra_simps)
      qed
      with last j show "due u \<le> ?T" by simp
    qed
    have "dropWhile (\<lambda>u. due u \<le> ?T) (insert_all ?rt (timers s)) = timers s"
      using rest_insert_all_reveals [OF sp _ all_due, of "timers s"] nd by simp
    then have "dropWhile (\<lambda>u. due u \<le> ?T) (timers s') = insert_timer cbt (timers s)"
      unfolding q using rest_insert_later [OF cb_later] by simp
    with run show ?thesis by simp
  qed
qed


lemma advance_fire_head:
  "timers s = u # rest \<Longrightarrow> due u \<le> T \<Longrightarrow>
     advance sw T s = advance sw T (fire sw u (s\<lparr>timers := rest\<rparr>))"
  by (simp add: advance.simps [of sw T s])

lemma insert_timer_first: "\<forall>u\<in>set q. due x < due u \<Longrightarrow> insert_timer x q = x # q"
  by (cases q) simp_all

lemma fire_exit_action:
  "exit_action (act u) \<Longrightarrow>
     timers (fire sw u s) = timers s \<and> spans (fire sw u s) = spans s
     \<and> children el (fire sw u s) = children el s \<and> uncaught (fire sw u s) = uncaught s
     \<and> tc_opacity (fire sw u s) = tc_opacity s"
  by (cases "act u"; cases el) (simp_all add: fire_def)

lemma advance_exit_actions:
  "\<forall>u\<in>set (timers s). exit_action (act u) \<Longrightarrow>
     spans (advance sw T s) = spans s \<and> children el (advance sw T s) = children el s
     \<and> uncaught (advance sw T s) = uncaught s \<and> tc_opacity (advance sw T s) = tc_opacity s"
proof (induction "timers s" arbitrary: s)
  case Nil
  then show ?case
    by (cases el) (simp_all add: advance.simps [of sw T s])
next
  case (Cons u rest)
  let ?s' = "fire sw u (s\<lparr>timers := rest\<rparr>)"
  have ex: "exit_action (act u)"
    using Cons.prems Cons.hyps(2) [symmetric] by simp
  note f = fire_exit_action [OF ex, of sw "s\<lparr>timers := rest\<rparr>" el]
  have "rest = timers ?s'" using f by simp
  moreover have "\<forall>u\<in>set (timers ?s'). exit_action (act u)"
    using f Cons.prems Cons.hyps(2) [symmetric] by simp
  ultimately have IH: "spans (advance sw T ?s') = spans ?s'
     \<and> children el (advance sw T ?s') = children el ?s'
     \<and> uncaught (advance sw T ?s') = uncaught ?s' \<and> tc_opacity (advance sw T ?s') = tc_opacity ?s'"
    by (rule Cons.hyps(1))
  show ?case
  proof (cases "due u \<le> T")
    case True
    with Cons.hyps(2) [symmetric] IH f show ?thesis
      by (simp add: advance.simps [of sw T s])
  next
    case False
    with Cons.hyps(2) [symmetric] show ?thesis
      by (cases el) (simp_all add: advance.simps [of sw T s])
  qed
qed

lemma set_insert_timer [simp]: "set (insert_timer t q) = insert t (set q)"
  by (induction q) auto

lemma stop_frame:
  "stop s = s\<lparr>tc_opacity := 0, timers := timers (stop s), next_id := next_id s + 4\<rparr>"
  by (simp add: stop_def setTimeout_def clearTimeout_def Let_def split: option.splits)

lemma timers_stop_tracked:
  "\<forall>u\<in>set (timers s). Some (tid u) = autoHideTimeout s \<or> Some (tid u) = delayedStartTimeout s \<Longrightarrow>
     \<forall>u\<in>set (timers (stop s)). exit_action (act u)"
  by (auto simp: stop_def setTimeout_def clearTimeout_def Let_def split: option.splits)

text \<open>The layout decides the width and nothing else.\<close>

lemma no_width_eqD: "no_width s' = no_width s \<Longrightarrow> s' = s\<lparr>lt_width := lt_width s'\<rparr>"
proof -
  assume "no_width s' = no_width s"
  then have "(no_width s')\<lparr>lt_width := lt_width s'\<rparr> = (no_width s)\<lparr>lt_width := lt_width s'\<rparr>"
    by simp
  then show ?thesis by (simp add: no_width_def)
qed

lemma width_out:
  "(s\<lparr>lt_width := w\<rparr>)\<lparr>lt_bottom := x1\<rparr> = (s\<lparr>lt_bottom := x1\<rparr>)\<lparr>lt_width := w\<rparr>"
  "(s\<lparr>lt_width := w\<rparr>)\<lparr>logo_opacity := x2\<rparr> = (s\<lparr>logo_opacity := x2\<rparr>)\<lparr>lt_width := w\<rparr>"
  "(s\<lparr>lt_width := w\<rparr>)\<lparr>logo_transform := x3\<rparr> = (s\<lparr>logo_transform := x3\<rparr>)\<lparr>lt_width := w\<rparr>"
  "(s\<lparr>lt_width := w\<rparr>)\<lparr>logo_bottom := x4\<rparr> = (s\<lparr>logo_bottom := x4\<rparr>)\<lparr>lt_width := w\<rparr>"
  "(s\<lparr>lt_width := w\<rparr>)\<lparr>logo_shimmer := x5\<rparr> = (s\<lparr>logo_shimmer := x5\<rparr>)\<lparr>lt_width := w\<rparr>"
  "(s\<lparr>lt_width := w\<rparr>)\<lparr>tc_opacity := x6\<rparr> = (s\<lparr>tc_opacity := x6\<rparr>)\<lparr>lt_width := w\<rparr>"
  "(s\<lparr>lt_width := w\<rparr>)\<lparr>now_playing_text := x7\<rparr> = (s\<lparr>now_playing_text := x7\<rparr>)\<lparr>lt_width := w\<rparr>"
  "(s\<lparr>lt_width := w\<rparr>)\<lparr>artist_text := x8\<rparr> = (s\<lparr>artist_text := x8\<rparr>)\<lparr>lt_width := w\<rparr>"
  "(s\<lparr>lt_width := w\<rparr>)\<lparr>song_text := x9\<rparr> = (s\<lparr>song_text := x9\<rparr>)\<lparr>lt_width := w\<rparr>"
  "(s\<lparr>lt_width := w\<rparr>)\<lparr>spans := y1\<rparr> = (s\<lparr>spans := y1\<rparr>)\<lparr>lt_width := w\<rparr>"
  "(s\<lparr>lt_width := w\<rparr>)\<lparr>timers := y2\<rparr> = (s\<lparr>timers := y2\<rparr>)\<lparr>lt_width := w\<rparr>"
  "(s\<lparr>lt_width := w\<rparr>)\<lparr>now := y3\<rparr> = (s\<lparr>now := y3\<rparr>)\<lparr>lt_width := w\<rparr>"
  "(s\<lparr>lt_width := w\<rparr>)\<lparr>next_id := y4\<rparr> = (s\<lparr>next_id := y4\<rparr>)\<lparr>lt_width := w\<rparr>"
  "(s\<lparr>lt_width := w\<rparr>)\<lparr>autoHideTimeout := y5\<rparr> = (s\<lparr>autoHideTimeout := y5\<rparr>)\<lparr>lt_width := w\<rparr>"
  "(s\<lparr>lt_width := w\<rparr>)\<lparr>delayedStartTimeout := y6\<rparr> = (s\<lparr>delayedStartTimeout := y6\<rparr>)\<lparr>lt_width := w\<rparr>"
  "(s\<lparr>lt_width := w\<rparr>)\<lparr>uncaught := y7\<rparr> = (s\<lparr>uncaught := y7\<rparr>)\<lparr>lt_width := w\<rparr>"
  by simp_all

lemma set_children_width:
  "set_children el cs (s\<lparr>lt_width := w\<rparr>) = (set_children el cs s)\<lparr>lt_width := w\<rparr>"
  by (cases el) simp_all

lemma children_width [simp]: "children el (s\<lparr>lt_width := w\<rparr>) = children el s"
  by (cases el) simp_all

lemma createTypewriter_width:
  "createTypewriter el v b cb (s\<lparr>lt_width := w\<rparr>)
     = map_sum (map_prod id (\<lambda>s. s\<lparr>lt_width := w\<rparr>)) (\<lambda>s. s\<lparr>lt_width := w\<rparr>)
         (createTypewriter el v b cb s)"
  by (cases v; cases cb)
     (simp_all add: createTypewriter_def Let_def append_spans_closed schedule_reveals_closed
        setTimeout_def set_children_width width_out)

lemma stop_width: "stop (s\<lparr>lt_width := w\<rparr>) = (stop s)\<lparr>lt_width := w\<rparr>"
  by (simp add: stop_def setTimeout_def clearTimeout_def Let_def width_out split: option.splits)

lemma reveal_width: "no_width (reveal sw' a (s\<lparr>lt_width := w\<rparr>)) = no_width (reveal sw a s)"
  by (simp add: reveal_def Let_def no_width_def split: option.splits)

lemma exec_width:
  "map_sum (map_prod id no_width) no_width (exec sw' a (s\<lparr>lt_width := w\<rparr>))
     = map_sum (map_prod id no_width) no_width (exec sw a s)"
proof (cases a)
  case (RevealChar x)
  then show ?thesis by (simp add: reveal_width)
next
  case AutoHide
  then show ?thesis by (simp add: stop_width no_width_def)
next
  case (StartReveal d)
  then show ?thesis
    by (cases "createTypewriter NowPlayingText (JStr ''Now Playing:'') 50 (Some (TypedLabel d))
          (s\<lparr>tc_opacity := 1\<rparr>)")
       (auto simp: createTypewriter_width width_out no_width_def setTimeout_def)
next
  case (TypedLabel d)
  then show ?thesis
    by (cases "createTypewriter ArtistText (js_or (artist d) (JStr ''Artist Name'')) 50
          (Some (TypedArtist d)) s")
       (auto simp: createTypewriter_width no_width_def)
next
  case (TypedArtist d)
  then show ?thesis
    by (cases "createTypewriter SongText (js_or (song d) (JStr ''Song Title'')) 50
          (Some TypedSong) s")
       (auto simp: createTypewriter_width no_width_def)
qed (simp_all add: no_width_def setTimeout_def Let_def)

lemma uncaught_width:
  assumes "no_width b = no_width c"
  shows "no_width (b\<lparr>uncaught := uncaught b @ [e]\<rparr>) = no_width (c\<lparr>uncaught := uncaught c @ [e]\<rparr>)"
proof -
  from assms obtain w where "b = c\<lparr>lt_width := w\<rparr>"
    using no_width_eqD by blast
  then show ?thesis
    by (simp add: no_width_def)
qed

lemma fire_width:
  "no_width (fire sw' u (s\<lparr>lt_width := w\<rparr>)) = no_width (fire sw u s)"
proof -
  let ?r' = "exec sw' (act u) ((s\<lparr>now := due u\<rparr>)\<lparr>lt_width := w\<rparr>)"
  let ?r = "exec sw (act u) (s\<lparr>now := due u\<rparr>)"
  have rel: "map_sum (map_prod id no_width) no_width ?r' = map_sum (map_prod id no_width) no_width ?r"
    by (rule exec_width)
  have f': "fire sw' u (s\<lparr>lt_width := w\<rparr>)
      = (case ?r' of Inr s' \<Rightarrow> s' | Inl (e, s') \<Rightarrow> s'\<lparr>uncaught := uncaught s' @ [e]\<rparr>)"
    by (simp add: fire_def width_out)
  have f: "fire sw u s
      = (case ?r of Inr s' \<Rightarrow> s' | Inl (e, s') \<Rightarrow> s'\<lparr>uncaught := uncaught s' @ [e]\<rparr>)"
    by (simp add: fire_def)
  show ?thesis
  proof (cases ?r')
    case (Inl p')
    obtain e b where p': "p' = (e, b)" by (cases p')
    from rel Inl p' obtain c where r: "?r = Inl (e, c)" and bc: "no_width b = no_width c"
      by (cases ?r) auto
    show ?thesis
      unfolding f f' Inl p' r using uncaught_width [OF bc] by simp
  next
    case (Inr b)
    from rel Inr obtain c where r: "?r = Inr c" and bc: "no_width b = no_width c"
      by (cases ?r) auto
    show ?thesis
      unfolding f f' Inr r using bc by simp
  qed
qed

lemma advance_width:
  "no_width (advance sw' T (s\<lparr>lt_width := w\<rparr>)) = no_width (advance sw T s)"
proof (induction sw T s arbitrary: w rule: advance.induct)
  case (1 sw t s)
  let ?s' = "s\<lparr>lt_width := w\<rparr>"
  show ?case
  proof (cases "timers s")
    case Nil
    then show ?thesis
      by (simp add: advance.simps [of sw t s] advance.simps [of sw' t ?s'] no_width_def)
  next
    case (Cons tm rest)
    show ?thesis
    proof (cases "due tm \<le> t")
      case True
      let ?a = "fire sw' tm ((s\<lparr>timers := rest\<rparr>)\<lparr>lt_width := w\<rparr>)"
      let ?b = "fire sw tm (s\<lparr>timers := rest\<rparr>)"
      have "no_width ?a = no_width ?b"
        by (rule fire_width)
      then have "?a = ?b\<lparr>lt_width := lt_width ?a\<rparr>"
        by (rule no_width_eqD)
      with 1 [OF Cons True, of "lt_width ?a"]
      have "no_width (advance sw' t ?a) = no_width (advance sw t ?b)"
        by simp
      with Cons True show ?thesis
        by (simp add: advance.simps [of sw t s] advance.simps [of sw' t ?s'] width_out)
    next
      case False
      with Cons show ?thesis
        by (simp add: advance.simps [of sw t s] advance.simps [of sw' t ?s'] no_width_def)
    qed
  qed
qed

lemma on_air_text_no_width: "on_air_text el s = on_air_text el (no_width s)"
  by (cases el) (simp_all add: on_air_text_def revealed_of_def no_width_def)

lemma on_air_text_any_layout:
  "on_air_text el (advance sw T s) = on_air_text el (advance monospace T s)"
proof -
  have "no_width (advance sw T (s\<lparr>lt_width := lt_width s\<rparr>)) = no_width (advance monospace T s)"
    by (rule advance_width)
  then have "no_width (advance sw T s) = no_width (advance monospace T s)"
    by simp
  then show ?thesis
    by (metis on_air_text_no_width)
qed

lemma update_play: "update arg s = play arg s"
  by (cases arg) (simp_all add: update_def play_def)


text \<open>The exit sequence started from the resting state.\<close>

lemma stop_idle:
  "idle s \<Longrightarrow>
     stop s = s\<lparr>tc_opacity := 0,
       timers := [\<lparr>tid = next_id s, due = now s + 500, act = Collapse\<rparr>,
                  \<lparr>tid = Suc (next_id s), due = now s + 1200, act = LogoRise\<rparr>,
                  \<lparr>tid = Suc (Suc (Suc (next_id s))), due = now s + 1800, act = LogoDrop\<rparr>,
                  \<lparr>tid = Suc (Suc (next_id s)), due = now s + 3500, act = BoxDown\<rparr>],
       next_id := Suc (Suc (Suc (Suc (next_id s))))\<rparr>"
  by (simp add: idle_def stop_def setTimeout_def clearTimeout_def Let_def split: option.splits)

lemma stop_idle_run:
  assumes "idle s" and "0 \<le> t"
  shows "uncaught (advance sw (now s + t) (stop s)) = uncaught s
    \<and> lt_width (advance sw (now s + t) (stop s)) = (if t < 500 then lt_width s else Px 0)
    \<and> lt_bottom (advance sw (now s + t) (stop s)) = ''-200px''
    \<and> tc_opacity (advance sw (now s + t) (stop s)) = 0
    \<and> logo_opacity (advance sw (now s + t) (stop s)) = logo_opacity s
    \<and> logo_shimmer (advance sw (now s + t) (stop s)) = logo_shimmer s
    \<and> now_playing_text (advance sw (now s + t) (stop s)) = now_playing_text s
    \<and> artist_text (advance sw (now s + t) (stop s)) = artist_text s
    \<and> song_text (advance sw (now s + t) (stop s)) = song_text s
    \<and> spans (advance sw (now s + t) (stop s)) = spans s
    \<and> logo_transform (advance sw (now s + t) (stop s))
        = (if t < 500 then logo_transform s else ''scale(1) rotate(0deg)'')
    \<and> logo_bottom (advance sw (now s + t) (stop s))
        = (if t < 1200 then logo_bottom s else if t < 1800 then ''-80px'' else ''-350px'')
    \<and> timers (advance sw (now s + t) (stop s))
        = filter (\<lambda>u. now s + t < due u) (timers (stop s))"
proof -
  note st = stop_idle [OF assms(1)]
  have i: "lt_bottom s = ''-200px''" "tc_opacity s = 0"
    using assms(1) by (simp_all add: idle_def)
  consider "t < 500" | "500 \<le> t" "t < 1200" | "1200 \<le> t" "t < 1800"
    | "1800 \<le> t" "t < 3500" | "3500 \<le> t"
    by linarith
  then show ?thesis
  proof cases
    case 1
    then show ?thesis unfolding st using i by (simp add: advance.simps fire_def)
  next
    case 2
    then show ?thesis unfolding st using i by (simp add: advance.simps fire_def)
  next
    case 3
    then show ?thesis unfolding st using i by (simp add: advance.simps fire_def)
  next
    case 4
    then show ?thesis unfolding st using i by (simp add: advance.simps fire_def)
  next
    case 5
    then show ?thesis unfolding st using i by (simp add: advance.simps fire_def)
  qed
qed

text \<open>The reveal timers in the queue after createTypewriter.\<close>

lemma set_insert_all: "set (insert_all ts q) = set ts \<union> set q"
  by (induction ts arbitrary: q) auto

lemma reveal_timers_nth:
  "i < length as \<Longrightarrow>
     \<lparr>tid = h + i, due = base + of_nat (k + i) * speed, act = RevealChar (as ! i)\<rparr>
       \<in> set (reveal_timers as k h base speed)"
proof (induction as arbitrary: i k h)
  case Nil
  then show ?case by simp
next
  case (Cons a as)
  show ?case
  proof (cases i)
    case 0
    then show ?thesis by simp
  next
    case (Suc j)
    with Cons.prems have "j < length as" by simp
    from Cons.IH [OF this, of "Suc h" "Suc k"] Suc show ?thesis by simp
  qed
qed

lemma createTypewriter_reveals:
  assumes "createTypewriter el (JStr chars) baseSpeed cb s = Inr s'"
  shows "children el s' = [length (spans s) ..< length (spans s) + length chars]"
    and "set (reveal_timers [length (spans s) ..< length (spans s) + length chars] 0
               (next_id s) (now s) (speed_of baseSpeed (length chars))) \<subseteq> set (timers s')"
proof -
  let ?cs = "[length (spans s) ..< length (spans s) + length chars]"
  let ?q = "insert_all (reveal_timers ?cs 0 (next_id s) (now s) (speed_of baseSpeed (length chars)))
              (timers s)"
  have "children el s' = ?cs \<and> set ?q \<subseteq> set (timers s')"
  proof (cases cb)
    case None
    with assms have "s' = (set_children el ?cs s)
          \<lparr>spans := spans s @ map new_span chars, timers := ?q,
            next_id := next_id s + length chars\<rparr>"
      by (cases el) (auto simp: createTypewriter_def Let_def append_spans_closed schedule_reveals_closed)
    then show ?thesis by (cases el) simp_all
  next
    case (Some c)
    with assms have "s' = (set_children el ?cs s)
          \<lparr>spans := spans s @ map new_span chars,
            timers := insert_timer
               \<lparr>tid = next_id s + length chars,
                 due = now s + (of_nat (length chars) * speed_of baseSpeed (length chars) + 500),
                 act = c\<rparr> ?q,
            next_id := Suc (next_id s + length chars)\<rparr>"
      by (simp add: createTypewriter_string)
    then show ?thesis by (cases el) auto
  qed
  then show "children el s' = ?cs"
    and "set (reveal_timers ?cs 0 (next_id s) (now s) (speed_of baseSpeed (length chars)))
           \<subseteq> set (timers s')"
    by (simp_all add: set_insert_all)
qed

section \<open>The Size Calculator and the reveal rate\<close>

text \<open>
  C4. For every measured content width, the width computed at lines 158 to 161 is
  \<open>clamp(measured + 400, 1000, 1600)\<close>, so it lies between 1000 and 1600; a measured width
  of 0 (the empty string) gives 1000 and a very large one gives 1600. A reveal either
  leaves the container's width as it is or writes that clamped value for the width it
  has just measured.
\<close>

theorem C4_newWidth_clamp:
  "newWidth w = clamp (w + 400) 1000 1600
   \<and> 1000 \<le> newWidth w \<and> newWidth w \<le> 1600
   \<and> newWidth 0 = 1000 \<and> newWidth 1000000 = 1600
   \<and> (lt_width (reveal sw a s) = lt_width s
        \<or> (\<exists>m. lt_width (reveal sw a s) = Px (clamp (m + 400) 1000 1600)))"
proof -
  have eq: "newWidth x = clamp (x + 400) 1000 1600" for x
    by (simp add: newWidth_def clamp_def Let_def max_def min_def)
  have "lt_width (reveal sw a s) = lt_width s
        \<or> (\<exists>m. lt_width (reveal sw a s) = Px (newWidth m))"
    by (auto simp: reveal_def Let_def split: option.splits)
  then show ?thesis
    unfolding eq by (simp add: clamp_def)
qed

text \<open>
  C6. The interval between character reveals is the base rate for a string of at most 100
  characters and half the base rate for a longer one: this is the speed lines 136 to 139
  compute, and the reveal timer \<open>createTypewriter\<close> sets for the character of index i
  is due i times that interval after the call.
\<close>

theorem C6_reveal_interval:
  "(length chars \<le> 100 \<longrightarrow> speed_of baseSpeed (length chars) = baseSpeed)
   \<and> (length chars > 100 \<longrightarrow> speed_of baseSpeed (length chars) = baseSpeed / 2)
   \<and> (\<exists>s'. createTypewriter el (JStr chars) baseSpeed cb s = Inr s'
         \<and> (\<forall>i<length chars.
               \<lparr>tid = next_id s + i,
                 due = now s + of_nat i * (if length chars \<le> 100 then baseSpeed else baseSpeed / 2),
                 act = RevealChar (children el s' ! i)\<rparr> \<in> set (timers s')))"
proof -
  let ?off = "length (spans s)" and ?n = "length chars"
  let ?sp = "speed_of baseSpeed ?n"
  have sp: "?sp = (if ?n \<le> 100 then baseSpeed else baseSpeed / 2)"
    by (simp add: speed_of_def)
  obtain s' where s': "createTypewriter el (JStr chars) baseSpeed cb s = Inr s'"
    by (cases cb) (simp_all add: createTypewriter_def Let_def)
  note r = createTypewriter_reveals [OF s']
  have "\<lparr>tid = next_id s + i, due = now s + of_nat i * ?sp, act = RevealChar (children el s' ! i)\<rparr>
          \<in> set (timers s')" if i: "i < ?n" for i
  proof -
    from i have "i < length [?off ..< ?off + ?n]" by simp
    from reveal_timers_nth [OF this, of "next_id s" "now s" 0 ?sp] r(2)
    have "\<lparr>tid = next_id s + i, due = now s + of_nat (0 + i) * ?sp,
            act = RevealChar ([?off ..< ?off + ?n] ! i)\<rparr> \<in> set (timers s')"
      by (rule subsetD [rotated])
    then show ?thesis by (simp add: r(1))
  qed
  then have "\<forall>i<?n. \<lparr>tid = next_id s + i,
                 due = now s + of_nat i * (if ?n \<le> 100 then baseSpeed else baseSpeed / 2),
                 act = RevealChar (children el s' ! i)\<rparr> \<in> set (timers s')"
    unfolding sp by blast
  with s' have "\<exists>s'. createTypewriter el (JStr chars) baseSpeed cb s = Inr s'
         \<and> (\<forall>i<?n. \<lparr>tid = next_id s + i,
                 due = now s + of_nat i * (if ?n \<le> 100 then baseSpeed else baseSpeed / 2),
                 act = RevealChar (children el s' ! i)\<rparr> \<in> set (timers s'))"
    by blast
  moreover have "(?n \<le> 100 \<longrightarrow> ?sp = baseSpeed) \<and> (?n > 100 \<longrightarrow> ?sp = baseSpeed / 2)"
    by (simp add: speed_of_def)
  ultimately show ?thesis by blast
qed

theorem C6_reveal_interval_witness:
  "length ''Now Playing:'' \<le> 100 \<and> speed_of 50 (length ''Now Playing:'') = 50
   \<and> length (replicate 101 (CHR ''x'')) > 100
   \<and> speed_of 50 (length (replicate 101 (CHR ''x''))) = 25
   \<and> (\<exists>s'. createTypewriter SongText (JStr (replicate 101 (CHR ''x''))) 50 None initial_page = Inr s'
         \<and> \<lparr>tid = 101, due = 2500, act = RevealChar (children SongText s' ! 100)\<rparr>
              \<in> set (timers s'))"
proof -
  let ?long = "replicate 101 (CHR ''x'')"
  note short = C6_reveal_interval [of "''Now Playing:''" 50 NowPlayingText None initial_page]
  note long = C6_reveal_interval [of ?long 50 SongText None initial_page]
  from long obtain s' where s': "createTypewriter SongText (JStr ?long) 50 None initial_page = Inr s'"
    and all: "\<forall>i<length ?long.
               \<lparr>tid = next_id initial_page + i,
                 due = now initial_page + of_nat i * (if length ?long \<le> 100 then 50 else 50 / 2),
                 act = RevealChar (children SongText s' ! i)\<rparr> \<in> set (timers s')"
    by blast
  have "(100::nat) < length ?long" by simp
  with all have "\<lparr>tid = next_id initial_page + 100,
                 due = now initial_page + of_nat 100 * (if length ?long \<le> 100 then 50 else 50 / 2),
                 act = RevealChar (children SongText s' ! 100)\<rparr> \<in> set (timers s')"
    by blast
  then have last: "\<lparr>tid = 101, due = 2500, act = RevealChar (children SongText s' ! 100)\<rparr>
              \<in> set (timers s')"
    by (simp add: initial_page_def)
  from short [THEN conjunct1] have a: "speed_of 50 (length ''Now Playing:'') = 50" by simp
  from long [THEN conjunct2, THEN conjunct1] have b: "speed_of 50 (length ?long) = 25" by simp
  from s' last have "\<exists>s'. createTypewriter SongText (JStr ?long) 50 None initial_page = Inr s'
         \<and> \<lparr>tid = 101, due = 2500, act = RevealChar (children SongText s' ! 100)\<rparr>
              \<in> set (timers s')"
    by blast
  with a b show ?thesis by simp
qed

section \<open>The Text Revealer\<close>



text \<open>
  C7. For a string of n characters, the character of index i becomes visible i * rate
  after the call of \<open>createTypewriter\<close>: at any moment t before the callback is due, the
  element holds the n spans of the string and span i has opacity 1 exactly when
  i * rate \<le> t. The callback is due n * rate + 500 after the call: once the last
  character is visible it is what the call has left in the queue, and when nothing else is
  due before it, it is what the loop fires at that time. For the empty string, n = 0: the
  callback alone is queued, due after 500. The pass is taken by itself: no other timer of
  the queue falls due before t.
\<close>

theorem C7_reveal_schedule:
  fixes s :: state and chars :: string and baseSpeed :: rat
  defines "n \<equiv> length chars"
  defines "speed \<equiv> speed_of baseSpeed (length chars)"
  defines "fin \<equiv> now s + (of_nat (length chars) * speed_of baseSpeed (length chars) + 500)"
  assumes "0 \<le> baseSpeed"
      and "\<forall>u\<in>set (timers s). now s + t < due u"
      and "t < of_nat n * speed + 500"
  shows "\<exists>s'. createTypewriter el (JStr chars) baseSpeed (Some cb) s = Inr s'
           \<and> text_of el (advance sw (now s + t) s') = map span_html chars
           \<and> (\<forall>i<n. opacity (spans (advance sw (now s + t) s') ! (children el (advance sw (now s + t) s') ! i))
                      = (if of_nat i * speed \<le> t then 1 else 0))
           \<and> (of_nat n * speed \<le> t + speed \<longrightarrow>
                timers (advance sw (now s + t) s')
                  = insert_timer \<lparr>tid = next_id s + n, due = fin, act = cb\<rparr> (timers s))
           \<and> (of_nat n * speed \<le> t + speed \<and> (\<forall>u\<in>set (timers s). fin < due u) \<longrightarrow>
                advance sw fin s'
                  = advance sw fin
                      (fire sw \<lparr>tid = next_id s + n, due = fin, act = cb\<rparr>
                         ((advance sw (now s + t) s')\<lparr>timers := timers s\<rparr>)))"
proof -
  let ?T = "now s + t"
  let ?cbt = "\<lparr>tid = next_id s + n, due = fin, act = cb\<rparr>"
  obtain s' where s': "createTypewriter el (JStr chars) baseSpeed (Some cb) s = Inr s'"
    by (simp add: createTypewriter_string)
  note tl = createTypewriter_timeline [OF assms(4) assms(5) assms(6) [unfolded n_def speed_def] s',
      folded n_def speed_def fin_def]
  let ?s = "advance sw ?T s'"
  let ?n0 = "length (spans s)"
  let ?as = "due_addrs [?n0 ..< ?n0 + n] 0 (now s) speed ?T"
  have sp: "spans ?s = show_spans ?as (spans s @ map new_span chars)"
    and ch: "children el ?s = [?n0 ..< ?n0 + n]"
    using tl(1,2) [of sw] by simp_all
  have html: "html (spans ?s ! (?n0 + i)) = span_html (chars ! i)" if "i < n" for i
    using that by (simp add: sp n_def nth_append new_span_def)
  have content: "text_of el ?s = map span_html chars"
    unfolding text_of_def ch
    by (rule nth_equalityI) (simp_all add: n_def html [unfolded n_def])
  have op: "opacity (spans ?s ! (children el ?s ! i)) = (if of_nat i * speed \<le> t then 1 else 0)"
    if i: "i < n" for i
  proof -
    have mem: "(?n0 + i \<in> set ?as) = (of_nat i * speed \<le> t)"
    proof
      assume "?n0 + i \<in> set ?as"
      then obtain j where "j < n" "[?n0 ..< ?n0 + n] ! j = ?n0 + i"
        "now s + of_nat (0 + j) * speed \<le> ?T"
        unfolding set_due_addrs by auto
      then show "of_nat i * speed \<le> t" by simp
    next
      assume "of_nat i * speed \<le> t"
      with i have "?n0 + i = [?n0 ..< ?n0 + n] ! i \<and> i < length [?n0 ..< ?n0 + n]
          \<and> now s + of_nat (0 + i) * speed \<le> ?T"
        by simp
      then show "?n0 + i \<in> set ?as"
        unfolding set_due_addrs by blast
    qed
    have "opacity (spans ?s ! (?n0 + i)) = (if ?n0 + i \<in> set ?as then 1 else 0)"
      using i by (simp add: sp opacity_show_spans n_def nth_append new_span_def)
    then show ?thesis
      using i by (simp add: ch mem)
  qed
  have fire: "advance sw fin s' = advance sw fin (fire sw ?cbt (?s\<lparr>timers := timers s\<rparr>))"
    if last: "of_nat n * speed \<le> t + speed" and later: "\<forall>u\<in>set (timers s). fin < due u"
  proof -
    have "?T \<le> fin"
      using assms(6) by (simp add: fin_def n_def speed_def)
    then have "advance sw fin s' = advance sw fin ?s"
      by (simp add: advance_advance)
    moreover have "timers ?s = ?cbt # timers s"
      using tl(6) [OF last, of sw] insert_timer_first [of "timers s" ?cbt] later by simp
    ultimately show ?thesis
      using advance_fire_head [of ?s ?cbt "timers s" fin sw] by simp
  qed
  from s' content op tl(6) [of sw] fire show ?thesis
    by blast
qed

text \<open>
  The theorem on the loaded page, for a string of two characters 49 ms after the call and
  for the empty string 499 ms after it; and the same timing in a whole cycle: the sixth
  character of the label shows 250 ms after the reveal starts at 3000 ms, not a
  millisecond earlier, and the artist's line is started by the label's callback at
  3000 + 12 * 50 + 500 = 4100 ms.
\<close>

theorem C7_reveal_schedule_witness:
  "timers initial_page = []
   \<and> (\<exists>s'. createTypewriter ArtistText (JStr ''Hi'') 50 (Some TypedSong) initial_page = Inr s'
         \<and> text_of ArtistText (advance monospace (now initial_page + 49) s') = map span_html ''Hi''
         \<and> revealed_of ArtistText (advance monospace (now initial_page + 49) s') = [''H''])
   \<and> (\<exists>s'. createTypewriter ArtistText (JStr []) 50 (Some TypedSong) initial_page = Inr s'
         \<and> timers (advance monospace (now initial_page + 499) s')
              = [\<lparr>tid = 1, due = 500, act = TypedSong\<rparr>])
   \<and> (let s = play (Some \<lparr>artist = JStr ''AB'', song = JStr ''C''\<rparr>) initial_page in
        revealed_of NowPlayingText (advance monospace 3249 s) = map span_html ''Now P''
        \<and> revealed_of NowPlayingText (advance monospace 3250 s) = map span_html ''Now Pl''
        \<and> text_of ArtistText (advance monospace 4099 s) = []
        \<and> revealed_of ArtistText (advance monospace 4100 s) = [''A''])"
proof -
  have cycle: "(let s = play (Some \<lparr>artist = JStr ''AB'', song = JStr ''C''\<rparr>) initial_page in
        revealed_of NowPlayingText (advance monospace 3249 s) = map span_html ''Now P''
        \<and> revealed_of NowPlayingText (advance monospace 3250 s) = map span_html ''Now Pl''
        \<and> text_of ArtistText (advance monospace 4099 s) = []
        \<and> revealed_of ArtistText (advance monospace 4100 s) = [''A''])"
    by (simp add: run_defs text_of_def revealed_of_def)
  have h1: "0 \<le> (50::rat)" by simp
  have h2: "\<forall>u\<in>set (timers initial_page). now initial_page + t < due u" for t
    by (simp add: initial_page_def)
  have h3: "(49::rat) < of_nat (length ''Hi'') * speed_of 50 (length ''Hi'') + 500"
    by (simp add: speed_of_def)
  have h4: "(499::rat) < of_nat (length ([] :: string)) * speed_of 50 (length ([] :: string)) + 500"
    by simp
  let ?at = "advance monospace (now initial_page + 49)"
  from C7_reveal_schedule [OF h1 h2 h3, of ArtistText TypedSong monospace]
  obtain s' where a: "createTypewriter ArtistText (JStr ''Hi'') 50 (Some TypedSong) initial_page = Inr s'"
    "text_of ArtistText (?at s') = map span_html ''Hi''"
    "\<forall>i<length ''Hi''. opacity (spans (?at s') ! (children ArtistText (?at s') ! i))
       = (if of_nat i * speed_of 50 (length ''Hi'') \<le> (49::rat) then 1 else 0)"
    by blast
  from a(3) have op: "opacity (spans (?at s') ! (children ArtistText (?at s') ! 0)) = 1"
    "opacity (spans (?at s') ! (children ArtistText (?at s') ! 1)) = 0"
    by (simp_all add: speed_of_def)
  from a(2) obtain x y where ch: "children ArtistText (?at s') = [x, y]"
    unfolding text_of_def by (auto simp: map_eq_Cons_conv)
  from a(2) op have b: "revealed_of ArtistText (?at s') = [''H'']"
    unfolding revealed_of_def text_of_def ch by (simp add: span_html_def)
  from C7_reveal_schedule [OF h1 h2 h4, of ArtistText TypedSong monospace]
  obtain s'' where c: "createTypewriter ArtistText (JStr []) 50 (Some TypedSong) initial_page = Inr s''"
    "timers (advance monospace (now initial_page + 499) s'')
       = insert_timer \<lparr>tid = next_id initial_page + length ([] :: string),
            due = now initial_page + (of_nat (length ([] :: string)) * speed_of 50 (length ([] :: string)) + 500),
            act = TypedSong\<rparr> (timers initial_page)"
    by (auto simp: speed_of_def)
  from c(2) have "timers (advance monospace (now initial_page + 499) s'')
              = [\<lparr>tid = 1, due = 500, act = TypedSong\<rparr>]"
    by (simp add: initial_page_def)
  with a(1,2) b c(1) have "timers initial_page = []
   \<and> (\<exists>s'. createTypewriter ArtistText (JStr ''Hi'') 50 (Some TypedSong) initial_page = Inr s'
         \<and> text_of ArtistText (advance monospace (now initial_page + 49) s') = map span_html ''Hi''
         \<and> revealed_of ArtistText (advance monospace (now initial_page + 49) s') = [''H''])
   \<and> (\<exists>s'. createTypewriter ArtistText (JStr []) 50 (Some TypedSong) initial_page = Inr s'
         \<and> timers (advance monospace (now initial_page + 499) s')
              = [\<lparr>tid = 1, due = 500, act = TypedSong\<rparr>])"
    by (simp add: initial_page_def)
  with cycle show ?thesis by blast
qed

section \<open>Cancellation\<close>

text \<open>
  C1. A call of \<open>play\<close>, \<open>update\<close> or \<open>stop\<close> should cancel every delayed action of the
  cycle it supersedes. The script clears only the two handles it keeps (lines 176, 177
  and 231, 232): the timers set at lines 199 and 204 inside the entrance closure, and
  every timer of \<open>createTypewriter\<close>, have no handle. The run below loads the page, calls
  \<open>play({artist: 'A', song: 'B'})\<close> at time 0 and \<open>play({artist: 'C', song: 'D'})\<close> at
  1200 ms. After the second call the first cycle's \<open>Expand\<close> (due at 1500) and
  \<open>StartReveal\<close> (due at 3000) are still queued. At 1500 the first cycle widens the box
  that the second call has just reset, 700 ms before the second cycle's entrance is due.
  At 3000 it makes the text container visible and types the label's spans, 1200 ms
  before the second cycle does. At 4200 and still at 5299 the artist on air is the first
  cycle's \<open>A\<close>, and at 5299 the song on air is its \<open>B\<close>.
\<close>

theorem C1_second_play_leaves_first_cycle_running:
  "(let first = \<lparr>artist = JStr ''A'', song = JStr ''B''\<rparr>;
        second = \<lparr>artist = JStr ''C'', song = JStr ''D''\<rparr>;
        s = play (Some second) (advance monospace 1200 (play (Some first) initial_page))
    in map (\<lambda>t. (due t, act t)) (timers s)
         = [(1500, Expand), (2200, DelayedStart second), (3000, StartReveal first)]
       \<and> lt_width s = Px 0
       \<and> lt_width (advance monospace 1500 s) = Px 1000
       \<and> tc_opacity (advance monospace 3000 s) = 1
       \<and> text_of NowPlayingText (advance monospace 3000 s) = map span_html ''Now Playing:''
       \<and> text_of ArtistText (advance monospace 4100 s) = [''A'']
       \<and> on_air_text ArtistText (advance monospace 4200 s) = [''A'']
       \<and> on_air_text ArtistText (advance monospace 5299 s) = [''A'']
       \<and> on_air_text SongText (advance monospace 5299 s) = [''B''])"
  by (simp add: run_defs text_of_def on_air_text_def revealed_of_def)

text \<open>
  C2. \<open>stop\<close> called while the cycle is entering, expanding or revealing should end in the
  resting state with no text visible. The three runs below call \<open>play()\<close> on the loaded
  page and \<open>stop()\<close> at 1100 ms (entering), 1600 ms (expanding) and 3100 ms (revealing),
  then let every timer fire. In the first two the untracked \<open>StartReveal\<close> timer of the
  cycle fires at 3000 ms, after the stop: the text container is made visible again, the
  three lines are typed, and since \<open>stop\<close> has cleared the auto-hide timer nothing hides
  them. In the third the pending typewriter timers widen the box again after the exit
  sequence has collapsed it. None of the three final states is the resting state.
\<close>

theorem C2_stop_leaves_cycle_running:
  "(let entering = advance monospace 100000 (stop (advance monospace 1100 (play None initial_page)));
        expanding = advance monospace 100000 (stop (advance monospace 1600 (play None initial_page)));
        revealing = advance monospace 100000 (stop (advance monospace 3100 (play None initial_page)))
    in timers entering = [] \<and> \<not> idle entering
       \<and> lt_width entering = Px 1000 \<and> tc_opacity entering = 1
       \<and> on_air_text ArtistText entering = map span_html ''Artist Name''
       \<and> timers expanding = [] \<and> \<not> idle expanding
       \<and> lt_width expanding = Px 1000 \<and> tc_opacity expanding = 1
       \<and> on_air_text SongText expanding = map span_html ''Song Title''
       \<and> timers revealing = [] \<and> \<not> idle revealing
       \<and> lt_width revealing = Px 1000 \<and> tc_opacity revealing = 0)"
  by (simp add: run_defs text_of_def on_air_text_def revealed_of_def idle_def)

section \<open>The command interface\<close>


text \<open>
  C9. The fallback at lines 208 and 209 is \<open>data.artist || 'Artist Name'\<close>: it tests
  truthiness, not presence. For a request whose artist is any falsy value (the empty
  string, \<open>undefined\<close>, \<open>null\<close>, 0, NaN, \<open>false\<close>) the artist line is typed from the
  default text, and 5000 ms after \<open>play\<close> or \<open>update\<close> on the loaded page the artist on
  air is "Artist Name", whatever the layout measures; likewise the song line is typed
  from "Song Title", which is on air at 6000 ms when both fields are falsy.
\<close>

theorem C9_falsy_fields_show_defaults:
  "(\<not> truthy (artist d) \<longrightarrow>
      exec sw (TypedLabel d) s
        = createTypewriter ArtistText (JStr ''Artist Name'') 50 (Some (TypedArtist d)) s
      \<and> on_air_text ArtistText (advance sw 5000 (play (Some d) initial_page))
          = map span_html ''Artist Name''
      \<and> on_air_text ArtistText (advance sw 5000 (update (Some d) initial_page))
          = map span_html ''Artist Name'')
   \<and> (\<not> truthy (song d) \<longrightarrow>
      exec sw (TypedArtist d) s
        = createTypewriter SongText (JStr ''Song Title'') 50 (Some TypedSong) s)
   \<and> (\<not> truthy (artist d) \<and> \<not> truthy (song d) \<longrightarrow>
      on_air_text SongText (advance sw 6000 (play (Some d) initial_page))
          = map span_html ''Song Title''
      \<and> on_air_text SongText (advance sw 6000 (update (Some d) initial_page))
          = map span_html ''Song Title'')"
proof -
  have a: "on_air_text ArtistText (advance sw 5000 (play (Some d) initial_page))
          = map span_html ''Artist Name''" if "\<not> truthy (artist d)"
    unfolding on_air_text_any_layout [of ArtistText sw]
    using that by (simp add: run_defs on_air_text_def revealed_of_def)
  have b: "on_air_text SongText (advance sw 6000 (play (Some d) initial_page))
          = map span_html ''Song Title''" if "\<not> truthy (artist d)" "\<not> truthy (song d)"
    unfolding on_air_text_any_layout [of SongText sw]
    using that by (simp add: run_defs on_air_text_def revealed_of_def)
  show ?thesis
    using a b by (simp add: update_play js_or_def)
qed

theorem C9_falsy_fields_show_defaults_witness:
  "\<not> truthy (artist \<lparr>artist = JStr [], song = JNum 0\<rparr>)
   \<and> \<not> truthy (song \<lparr>artist = JStr [], song = JNum 0\<rparr>)
   \<and> on_air_text ArtistText
        (advance monospace 5000 (play (Some \<lparr>artist = JStr [], song = JNum 0\<rparr>) initial_page))
       = [''A'', ''r'', ''t'', ''i'', ''s'', ''t'', ''&nbsp;'', ''N'', ''a'', ''m'', ''e'']
   \<and> on_air_text SongText
        (advance monospace 6000 (update (Some \<lparr>artist = JStr [], song = JNum 0\<rparr>) initial_page))
       = [''S'', ''o'', ''n'', ''g'', ''&nbsp;'', ''T'', ''i'', ''t'', ''l'', ''e'']"
  using C9_falsy_fields_show_defaults [of "\<lparr>artist = JStr [], song = JNum 0\<rparr>" monospace initial_page]
  by (simp add: span_html_def)

text \<open>
  C10. \<open>stop\<close> does not touch the text. The call itself changes the opacity of the text
  container, the timer queue and the handle counter, and nothing else; the timers it adds
  are the four closures of the exit sequence, and each of these leaves every element's
  spans and the span store as they are (they write the width, the logo's transform and
  the two \<open>bottom\<close> positions). So when the only timers pending at the call are the two
  the script tracks, the text is the same at every later time, and it is off air; it
  stays in the elements until \<open>play\<close> empties them.
\<close>

theorem C10_stop_keeps_text:
  "stop s = s\<lparr>tc_opacity := 0, timers := timers (stop s), next_id := next_id s + 4\<rparr>
   \<and> act ` set (timers (stop s)) \<subseteq> act ` set (timers s) \<union> {Collapse, LogoRise, BoxDown, LogoDrop}
   \<and> (\<forall>a\<in>{Collapse, LogoRise, BoxDown, LogoDrop}.
         \<exists>s'. exec sw a s = Inr s' \<and> children el s' = children el s \<and> spans s' = spans s)
   \<and> ((\<forall>u\<in>set (timers s). Some (tid u) = autoHideTimeout s \<or> Some (tid u) = delayedStartTimeout s)
        \<longrightarrow> children el (advance sw t (stop s)) = children el s
            \<and> spans (advance sw t (stop s)) = spans s
            \<and> text_of el (advance sw t (stop s)) = text_of el s
            \<and> on_air_text el (advance sw t (stop s)) = [])
   \<and> children el (play arg s) = []"
proof -
  have a: "act ` set (timers (stop s)) \<subseteq> act ` set (timers s) \<union> {Collapse, LogoRise, BoxDown, LogoDrop}"
    by (auto simp: stop_def setTimeout_def clearTimeout_def Let_def split: option.splits)
  have b: "\<forall>a\<in>{Collapse, LogoRise, BoxDown, LogoDrop}.
         \<exists>s'. exec sw a s = Inr s' \<and> children el s' = children el s \<and> spans s' = spans s"
    by (cases el) simp_all
  have c: "children el (advance sw t (stop s)) = children el s
            \<and> spans (advance sw t (stop s)) = spans s
            \<and> text_of el (advance sw t (stop s)) = text_of el s
            \<and> on_air_text el (advance sw t (stop s)) = []"
    if "\<forall>u\<in>set (timers s). Some (tid u) = autoHideTimeout s \<or> Some (tid u) = delayedStartTimeout s"
  proof -
    have st: "children el (stop s) = children el s" "spans (stop s) = spans s" "tc_opacity (stop s) = 0"
      by (subst stop_frame, cases el; simp)+
    from advance_exit_actions [OF timers_stop_tracked [OF that], of sw t el] st
    show ?thesis by (simp add: text_of_def on_air_text_def)
  qed
  have d: "children el (play arg s) = []"
    by (cases el) (simp_all add: play_def setTimeout_def Let_def)
  from stop_frame [of s] a b c d show ?thesis by blast
qed

theorem C10_stop_keeps_text_witness:
  "(let s = advance monospace 7000 (play None initial_page)
    in map (\<lambda>u. (tid u, act u)) (timers s) = [(4, AutoHide)] \<and> autoHideTimeout s = Some 4
       \<and> on_air_text ArtistText s = map span_html ''Artist Name''
       \<and> text_of ArtistText (advance monospace 20000 (stop s)) = map span_html ''Artist Name''
       \<and> on_air_text ArtistText (advance monospace 20000 (stop s)) = [])"
proof -
  define s where "s = advance monospace 7000 (play None initial_page)"
  have q: "map (\<lambda>u. (tid u, act u)) (timers s) = [(4, AutoHide)] \<and> autoHideTimeout s = Some 4"
    unfolding s_def by (simp add: run_defs)
  have before: "text_of ArtistText s = map span_html ''Artist Name''
      \<and> on_air_text ArtistText s = map span_html ''Artist Name''"
    unfolding s_def by (simp add: run_defs text_of_def on_air_text_def revealed_of_def)
  from q have h: "\<forall>u\<in>set (timers s). Some (tid u) = autoHideTimeout s \<or> Some (tid u) = delayedStartTimeout s"
    by auto
  from C10_stop_keeps_text [of s monospace ArtistText 20000 None] h
  have "text_of ArtistText (advance monospace 20000 (stop s)) = text_of ArtistText s"
    "on_air_text ArtistText (advance monospace 20000 (stop s)) = []"
    by blast+
  with before q show ?thesis
    unfolding s_def [symmetric] Let_def by simp
qed

text \<open>
  C3, as the code has it. \<open>stop\<close> called in the resting state raises no exception and
  never makes the width negative: the width stays 0. At every later time the box's
  position, the opacity of the text container and of the logo, and the text are what
  they were. But the call is not a no-op: the exit sequence runs all the same. It writes
  the logo's transform (and the inline width 0) after 500 ms and moves the logo to bottom
  -80px after 1200 ms and to -350px after 1800 ms. From 3500 ms on the overlay is at rest
  again, and a second \<open>stop\<close> from there ends in the same visible state.
\<close>

theorem C3_stop_when_idle:
  assumes "idle s" and "0 \<le> t"
  shows "(let s' = advance sw (now s + t) (stop s) in
      uncaught s' = uncaught s
      \<and> width_px (lt_width s') = 0 \<and> lt_bottom s' = ''-200px''
      \<and> tc_opacity s' = 0 \<and> logo_opacity s' = logo_opacity s
      \<and> logo_shimmer s' = logo_shimmer s
      \<and> now_playing_text s' = now_playing_text s \<and> artist_text s' = artist_text s
      \<and> song_text s' = song_text s \<and> spans s' = spans s
      \<and> logo_transform s' = (if t < 500 then logo_transform s else ''scale(1) rotate(0deg)'')
      \<and> logo_bottom s'
          = (if t < 1200 then logo_bottom s else if t < 1800 then ''-80px'' else ''-350px'')
      \<and> (3500 \<le> t \<longrightarrow>
            idle s' \<and> visual (advance sw (now s' + t) (stop s')) = visual s'))"
proof -
  define s' where "s' = advance sw (now s + t) (stop s)"
  note run = stop_idle_run [OF assms, of sw, folded s'_def]
  have w: "width_px (lt_width s') = 0"
    using run assms(1) by (simp add: idle_def)
  have again: "idle s' \<and> visual (advance sw (now s' + t) (stop s')) = visual s'" if t: "3500 \<le> t"
  proof -
    have "timers s' = []"
      using run t by (simp add: stop_idle [OF assms(1)])
    with run w have idle: "idle s'"
      by (simp add: idle_def)
    from stop_idle_run [OF idle assms(2), of sw] run t w
    show ?thesis
      using idle by (simp add: visual_def)
  qed
  from run w again show ?thesis
    unfolding s'_def [symmetric] Let_def by simp
qed

theorem C3_stop_when_idle_witness:
  "idle initial_page \<and> (0::rat) \<le> 4000
   \<and> (let s' = advance monospace (now initial_page + 4000) (stop initial_page) in
        uncaught s' = [] \<and> width_px (lt_width s') = 0 \<and> tc_opacity s' = 0
        \<and> logo_bottom s' = ''-350px'' \<and> idle s'
        \<and> visual (advance monospace (now s' + 4000) (stop s')) = visual s')"
proof -
  have h1: "idle initial_page" by (simp add: idle_def initial_page_def)
  have h2: "(0::rat) \<le> 4000" by simp
  from C3_stop_when_idle [OF h1 h2, of monospace] h1 show ?thesis
    by (simp add: Let_def initial_page_def)
qed

text \<open>
  C3 as stated fails: the logo's position does not stay at its resting value. On the
  loaded page, which is at rest with the logo at -200px, the logo is at -80px 1200 ms
  after \<open>stop\<close> and ends at -350px; in the resting state a complete cycle ends on, with
  the logo at -350px, it is at -80px 1200 ms after \<open>stop\<close>.
\<close>

theorem C3_stop_when_idle_counterexample:
  "idle initial_page \<and> logo_bottom initial_page = ''-200px''
   \<and> logo_bottom (advance monospace 1200 (stop initial_page)) = ''-80px''
   \<and> logo_bottom (advance monospace 3500 (stop initial_page)) = ''-350px''
   \<and> (let rest = advance monospace 20000 (play None initial_page) in
        idle rest \<and> logo_bottom rest = ''-350px''
        \<and> logo_bottom (advance monospace 21200 (stop rest)) = ''-80px'')"
  by (simp add: run_defs idle_def)

end
